theory Spec2Isabelle
  imports Complex_Main "HOL-Library.Multiset"
begin

section \<open>PrizePicker: the slip-selection engine\<close>

text \<open>
  A shallow embedding of \<^verbatim>\<open>calculate_novig\<close> (src/scraper.py and
  src/fanduelScraper.py, the same text in both) and of \<^verbatim>\<open>get_slips\<close> and
  \<^verbatim>\<open>dashboard\<close> (src/find_bets.py).

  Conventions of the embedding.
  \<^item> A finite Python float is an exact rational number (\<^typ>\<open>rat\<close>); the float
    \<^verbatim>\<open>nan\<close> is a value of its own where a table cell can hold it. Rounding error
    and the infinities are outside the model.
  \<^item> An exception is a value \<open>Inl e\<close> of a sum type; \<^verbatim>\<open>try/except\<close> is a case
    distinction on it.
  \<^item> Python's builtins \<^verbatim>\<open>float(str)\<close> and \<^verbatim>\<open>int(str)\<close> are parameters
    (\<open>pf\<close>, \<open>pint\<close>): \<open>None\<close> where the builtin raises \<^verbatim>\<open>ValueError\<close>.
  \<^item> \<^verbatim>\<open>random.sample\<close> draws without replacement; the numbers the generator
    produces are a parameter \<open>rng\<close> (trial number, draw number).
  \<^item> The input of \<^verbatim>\<open>get_slips\<close> is the merged table \<^verbatim>\<open>all_props\<close>, a list of rows;
    reading the CSV files is outside the model (no file and no readable file both give a
    table without rows).
\<close>

subsection \<open>Exceptions and arithmetic\<close>

datatype error = ZeroDivisionError | ValueError

text \<open>Python's \<^verbatim>\<open>a / b\<close>.\<close>

definition truediv :: "rat \<Rightarrow> rat \<Rightarrow> error + rat" where
  "truediv a b = (if b = 0 then Inl ZeroDivisionError else Inr (a / b))"

text \<open>Python's \<^verbatim>\<open>round(x)\<close> on an exact value: to the nearest integer, a tie to the even one.\<close>

definition py_round :: "rat \<Rightarrow> int" where
  "py_round x =
     (let f = \<lfloor>x\<rfloor>; d = x - of_int f
      in if d < 1 / 2 then f
         else if 1 / 2 < d then f + 1
         else if even f then f else f + 1)"

text \<open>Python's \<^verbatim>\<open>round(x, 2)\<close>.\<close>

definition round2 :: "rat \<Rightarrow> rat" where
  "round2 x = of_int (py_round (x * 100)) / 100"

subsection \<open>The Odds Normalizer: \<^verbatim>\<open>calculate_novig\<close>\<close>

definition get_implied :: "int \<Rightarrow> error + rat" where
  "get_implied american_odds =
     (if american_odds > 0 then truediv 100 (of_int (american_odds + 100))
      else truediv (of_int \<bar>american_odds\<bar>) (of_int (\<bar>american_odds\<bar> + 100)))"

text \<open>The body of the \<^verbatim>\<open>try\<close> block.\<close>

definition novig_body :: "int \<Rightarrow> int \<Rightarrow> error + (rat \<times> rat)" where
  "novig_body over_odds under_odds =
     (case get_implied over_odds of
        Inl e \<Rightarrow> Inl e
      | Inr prob_over \<Rightarrow>
          (case get_implied under_odds of
             Inl e \<Rightarrow> Inl e
           | Inr prob_under \<Rightarrow>
               (let market_sum = prob_over + prob_under
                in case truediv prob_over market_sum of
                     Inl e \<Rightarrow> Inl e
                   | Inr fair_over \<Rightarrow>
                       (case truediv prob_under market_sum of
                          Inl e \<Rightarrow> Inl e
                        | Inr fair_under \<Rightarrow> Inr (fair_over, fair_under)))))"

text \<open>\<^verbatim>\<open>except ZeroDivisionError: return 0.0, 0.0\<close>; any other exception leaves the function.\<close>

definition calculate_novig :: "int \<Rightarrow> int \<Rightarrow> error + (rat \<times> rat)" where
  "calculate_novig over_odds under_odds =
     (case novig_body over_odds under_odds of
        Inl ZeroDivisionError \<Rightarrow> Inr (0, 0)
      | Inl e \<Rightarrow> Inl e
      | Inr p \<Rightarrow> Inr p)"

subsection \<open>Table rows, candidates and slips\<close>

datatype fl = Fin rat | NaN

text \<open>A cell of the data frame holds a float or a string.\<close>

datatype cell = Flt fl | Str string

text \<open>
  A row, as \<^verbatim>\<open>row.get\<close> reads it (a column the table lacks has the default of the
  call: \<open>Str ''NL''\<close> for the two lines, \<open>Flt (Fin 0)\<close> for the two fair percentages).
  The text columns hold what \<^verbatim>\<open>str(...)\<close> (for \<^verbatim>\<open>Prop Type\<close>, the f-string) makes
  of the cell.
\<close>

record row =
  col_FanDuel_Line :: cell
  col_PrizePicks_Line :: cell
  col_FD_Fair_Over :: cell
  col_FD_Fair_Under :: cell
  col_Player_Image :: string
  col_Team :: string
  col_Player :: string
  col_Prop_Type :: string
  col_Sport :: string

datatype direction = OVER | UNDER

text \<open>
  The dictionary \<^verbatim>\<open>bet_info\<close>. The key \<^verbatim>\<open>id\<close> is the field \<open>leg_id\<close>; the key
  \<^verbatim>\<open>Initials\<close>, which only the page shows, is not modelled.
\<close>

record candidate =
  leg_id :: string
  Player :: string
  Player_Image :: string
  Team :: string
  Position :: string
  Sport :: string
  Prop_Type :: string
  FanDuel_Line :: rat
  PrizePicks_Line :: rat
  Line_Diff :: rat
  Bet_Direction :: direction
  Fair_Win_Pct :: rat
  Edge :: rat

text \<open>
  A slip. \<open>Is_Fallback\<close> is the key that only the single-prop view sets; \<open>Leg_Ids\<close> is
  the set of ids (the single-prop view builds a one-element list, the end of
  \<^verbatim>\<open>get_slips\<close> turns each set into a list of unspecified order).
\<close>

record slip =
  Avg_Win_Pct :: rat
  Total_Edge :: rat
  Legs :: "candidate list"
  Leg_Ids :: "string set"
  Is_Fallback :: bool

subsection \<open>The Candidate Extractor\<close>

text \<open>\<^verbatim>\<open>str(cell) in names\<close>: the text of a finite float is a numeral, that of nan is \<^verbatim>\<open>nan\<close>.\<close>

fun str_in :: "cell \<Rightarrow> string list \<Rightarrow> bool" where
  "str_in (Str s) names = (s \<in> set names)"
| "str_in (Flt NaN) names = (''nan'' \<in> set names)"
| "str_in (Flt (Fin r)) names = False"

text \<open>\<^verbatim>\<open>float(cell)\<close> and \<^verbatim>\<open>float(str(cell))\<close>: a float is read back as itself.\<close>

fun py_float :: "(string \<Rightarrow> fl option) \<Rightarrow> cell \<Rightarrow> error + fl" where
  "py_float pf (Flt f) = Inr f"
| "py_float pf (Str s) = (case pf s of None \<Rightarrow> Inl ValueError | Some f \<Rightarrow> Inr f)"

text \<open>\<^verbatim>\<open>abs(a - b)\<close> on floats; a comparison with nan is false.\<close>

fun abs_diff :: "fl \<Rightarrow> fl \<Rightarrow> fl" where
  "abs_diff (Fin a) (Fin b) = Fin \<bar>a - b\<bar>"
| "abs_diff _ _ = NaN"

fun fl_le :: "fl \<Rightarrow> rat \<Rightarrow> bool" where
  "fl_le (Fin a) b = (a \<le> b)"
| "fl_le NaN b = False"

fun fl_gt :: "fl \<Rightarrow> rat \<Rightarrow> bool" where
  "fl_gt (Fin a) b = (a > b)"
| "fl_gt NaN b = False"

text \<open>The value of a float that a comparison has already shown not to be nan.\<close>

fun fin_val :: "fl \<Rightarrow> rat" where
  "fin_val (Fin a) = a"
| "fin_val NaN = 0"

definition min_candidate_prob :: rat where
  "min_candidate_prob = 53.5"

text \<open>\<^verbatim>\<open>s.split(" - ")\<close>, scanning from the left; \<open>cur\<close> is the part being read.\<close>

function split_sep :: "string \<Rightarrow> string \<Rightarrow> string list" where
  "split_sep cur [] = [cur]"
| "split_sep cur (c # cs) =
     (if take 3 (c # cs) = '' - '' then cur # split_sep [] (drop 2 cs)
      else split_sep (cur @ [c]) cs)"
  by pat_completeness auto
termination
  by (relation "measure (\<lambda>(cur, s). length s)") auto

text \<open>\<^verbatim>\<open>" - " in s\<close>.\<close>

fun has_sep :: "string \<Rightarrow> bool" where
  "has_sep [] = False"
| "has_sep (c # cs) = (take 3 (c # cs) = '' - '' \<or> has_sep cs)"

definition team_name_of :: "string \<Rightarrow> string" where
  "team_name_of team_raw =
     (if has_sep team_raw then hd (split_sep [] team_raw) else team_raw)"

definition position_of :: "string \<Rightarrow> string" where
  "position_of team_raw =
     (if has_sep team_raw \<and> length (split_sep [] team_raw) > 1
      then split_sep [] team_raw ! 1 else ''N/A'')"

definition image_of :: "string \<Rightarrow> string" where
  "image_of img_url = (if img_url \<in> set [''nan'', ''None'', '''', ''NL''] then '''' else img_url)"

text \<open>
  The choice of the side: OVER is tested first, UNDER only when OVER fails; \<open>None\<close> is
  \<^verbatim>\<open>bet_type = None\<close>.
\<close>

definition pick_side :: "fl \<Rightarrow> fl \<Rightarrow> (direction \<times> rat) option" where
  "pick_side fair_over fair_under =
     (if fl_gt fair_over min_candidate_prob then Some (OVER, fin_val fair_over)
      else if fl_gt fair_under min_candidate_prob then Some (UNDER, fin_val fair_under)
      else None)"

definition bet_info :: "row \<Rightarrow> rat \<Rightarrow> rat \<Rightarrow> direction \<Rightarrow> rat \<Rightarrow> candidate" where
  "bet_info r fd_line pp_line bet_type fair_prob =
     \<lparr> leg_id = col_Player r @ ''_'' @ col_Prop_Type r,
       Player = col_Player r,
       Player_Image = image_of (col_Player_Image r),
       Team = team_name_of (col_Team r),
       Position = position_of (col_Team r),
       Sport = col_Sport r,
       Prop_Type = col_Prop_Type r,
       FanDuel_Line = fd_line,
       PrizePicks_Line = pp_line,
       Line_Diff = \<bar>fd_line - pp_line\<bar>,
       Bet_Direction = bet_type,
       Fair_Win_Pct = fair_prob,
       Edge = round2 (fair_prob - 54.21) \<rparr>"

text \<open>
  The body of the \<^verbatim>\<open>try\<close> block of the row loop: \<open>Inr None\<close> when the row is left
  without a candidate, \<open>Inl e\<close> when a conversion raises.
\<close>

definition row_body :: "(string \<Rightarrow> fl option) \<Rightarrow> row \<Rightarrow> error + candidate option" where
  "row_body pf r =
     (if str_in (col_FanDuel_Line r) [''NL'', ''FF'']
         \<or> str_in (col_PrizePicks_Line r) [''NL'', ''FF'', ''nan'']
      then Inr None
      else case py_float pf (col_FanDuel_Line r) of
        Inl e \<Rightarrow> Inl e
      | Inr fd_line \<Rightarrow>
      (case py_float pf (col_PrizePicks_Line r) of
        Inl e \<Rightarrow> Inl e
      | Inr pp_line \<Rightarrow>
      (case py_float pf (col_FD_Fair_Over r) of
        Inl e \<Rightarrow> Inl e
      | Inr fair_over \<Rightarrow>
      (case py_float pf (col_FD_Fair_Under r) of
        Inl e \<Rightarrow> Inl e
      | Inr fair_under \<Rightarrow>
          (if fl_le (abs_diff fd_line pp_line) (0.5)
           then (case pick_side fair_over fair_under of
                   None \<Rightarrow> Inr None
                 | Some (bet_type, fair_prob) \<Rightarrow>
                     Inr (Some (bet_info r (fin_val fd_line) (fin_val pp_line) bet_type fair_prob)))
           else Inr None)))))"

text \<open>The row loop: \<^verbatim>\<open>except Exception: continue\<close> drops the row.\<close>

fun row_loop :: "(string \<Rightarrow> fl option) \<Rightarrow> row list \<Rightarrow> candidate list \<Rightarrow> candidate list" where
  "row_loop pf [] candidates = candidates"
| "row_loop pf (r # rs) candidates =
     (case row_body pf r of
        Inl e \<Rightarrow> row_loop pf rs candidates
      | Inr None \<Rightarrow> row_loop pf rs candidates
      | Inr (Some c) \<Rightarrow> row_loop pf rs (candidates @ [c]))"

subsection \<open>Thresholds\<close>

definition THRESHOLDS :: "string \<rightharpoonup> (int \<rightharpoonup> rat)" where
  "THRESHOLDS =
     [''power'' \<mapsto> [2 \<mapsto> 57.74, 3 \<mapsto> 55.05, 4 \<mapsto> 56.23, 5 \<mapsto> 54.93, 6 \<mapsto> 54.66],
      ''flex'' \<mapsto> [3 \<mapsto> 57.74, 4 \<mapsto> 55.04, 5 \<mapsto> 54.26, 6 \<mapsto> 54.21]]"

text \<open>\<^verbatim>\<open>THRESHOLDS.get(style, {}).get(target_size, 54.21)\<close>.\<close>

definition threshold_of :: "string \<Rightarrow> int \<Rightarrow> rat" where
  "threshold_of style target_size =
     (case THRESHOLDS style of
        None \<Rightarrow> 54.21
      | Some by_size \<Rightarrow> (case by_size target_size of None \<Rightarrow> 54.21 | Some t \<Rightarrow> t))"

subsection \<open>Sorting\<close>

text \<open>
  \<^verbatim>\<open>list.sort(key=..., reverse=True)\<close> is stable: descending by the key, equal keys in
  their former order. \<^const>\<open>sort_key\<close> is a stable insertion sort.
\<close>

definition sort_pool :: "candidate list \<Rightarrow> candidate list" where
  "sort_pool pool = sort_key (\<lambda>x. - Fair_Win_Pct x) pool"

definition sort_slips :: "slip list \<Rightarrow> slip list" where
  "sort_slips slips = sort_key (\<lambda>x. - Avg_Win_Pct x) slips"

subsection \<open>Case 1: the single-prop view\<close>

definition prop_slip :: "candidate \<Rightarrow> slip" where
  "prop_slip prop =
     \<lparr> Avg_Win_Pct = Fair_Win_Pct prop,
       Total_Edge = Edge prop,
       Legs = [prop],
       Leg_Ids = {leg_id prop},
       Is_Fallback = True \<rparr>"

definition single_props :: "candidate list \<Rightarrow> slip list" where
  "single_props pool = map prop_slip (take 51 (sort_pool pool))"

subsection \<open>Strategy 1: pairs for the 2-man power play\<close>

definition pair_slip :: "candidate \<Rightarrow> candidate \<Rightarrow> rat \<Rightarrow> rat \<Rightarrow> slip" where
  "pair_slip leg1 leg2 avg_win_pct threshold =
     \<lparr> Avg_Win_Pct = round2 avg_win_pct,
       Total_Edge = round2 (avg_win_pct - threshold),
       Legs = [leg1, leg2],
       Leg_Ids = {leg_id leg1, leg_id leg2},
       Is_Fallback = False \<rparr>"

text \<open>
  The inner loop \<^verbatim>\<open>for i in range(len(search_pool) - 1, -1, -1)\<close>: \<open>find_match\<close> with
  counter \<open>n\<close> looks at the indices \<open>n - 1\<close> down to \<open>0\<close> and returns the first index
  that is taken.
\<close>

fun find_match :: "candidate \<Rightarrow> candidate list \<Rightarrow> rat \<Rightarrow> nat \<Rightarrow> nat option" where
  "find_match leg1 search_pool threshold 0 = None"
| "find_match leg1 search_pool threshold (Suc i) =
     (let leg2 = search_pool ! i;
          avg_win_pct = (Fair_Win_Pct leg1 + Fair_Win_Pct leg2) / 2
      in if avg_win_pct \<le> threshold then find_match leg1 search_pool threshold i
         else if Team leg1 = Team leg2 then find_match leg1 search_pool threshold i
         else Some i)"

text \<open>The outer loop \<^verbatim>\<open>while len(search_pool) >= 2\<close>.\<close>

function greedy_pairs :: "candidate list \<Rightarrow> rat \<Rightarrow> slip list \<Rightarrow> slip list" where
  "greedy_pairs search_pool threshold all_valid_slips =
     (case search_pool of
        leg1 # rest \<Rightarrow>
          (if length search_pool \<ge> 2
           then (case find_match leg1 rest threshold (length rest) of
                   None \<Rightarrow> greedy_pairs rest threshold all_valid_slips
                 | Some i \<Rightarrow>
                     greedy_pairs (take i rest @ drop (Suc i) rest) threshold
                       (all_valid_slips @
                        [pair_slip leg1 (rest ! i)
                           ((Fair_Win_Pct leg1 + Fair_Win_Pct (rest ! i)) / 2) threshold]))
           else all_valid_slips)
      | [] \<Rightarrow> all_valid_slips)"
  by pat_completeness auto
termination
  by (relation "measure (\<lambda>(search_pool, threshold, slips). length search_pool)") auto

declare greedy_pairs.simps [simp del]

subsection \<open>Strategies 2 and 3: the test of a combination\<close>

definition combo_slip :: "candidate list \<Rightarrow> rat \<Rightarrow> rat \<Rightarrow> slip" where
  "combo_slip combo avg_win_pct threshold =
     \<lparr> Avg_Win_Pct = round2 avg_win_pct,
       Total_Edge = round2 (avg_win_pct - threshold),
       Legs = combo,
       Leg_Ids = set (map leg_id combo),
       Is_Fallback = False \<rparr>"

text \<open>
  The body both loops share, from \<^verbatim>\<open>avg_win_pct = sum(...) / target_size\<close> on:
  \<open>Inr None\<close> is \<^verbatim>\<open>continue\<close>, \<open>Inr (Some s)\<close> the slip that is appended.
\<close>

definition check_combo :: "candidate list \<Rightarrow> int \<Rightarrow> rat \<Rightarrow> error + slip option" where
  "check_combo combo target_size threshold =
     (case truediv (sum_list (map Fair_Win_Pct combo)) (of_int target_size) of
        Inl e \<Rightarrow> Inl e
      | Inr avg_win_pct \<Rightarrow>
          (if avg_win_pct \<le> threshold then Inr None
           else if int (card (set (map Player combo))) \<noteq> target_size then Inr None
           else if card (set (map Team combo)) < 2 then Inr None
           else Inr (Some (combo_slip combo avg_win_pct threshold))))"

subsection \<open>Strategy 2: all combinations\<close>

text \<open>\<^verbatim>\<open>itertools.combinations(xs, r)\<close> for \<open>r \<ge> 0\<close>, in its order (lexicographic in the positions).\<close>

fun combinations :: "'a list \<Rightarrow> nat \<Rightarrow> 'a list list" where
  "combinations xs 0 = [[]]"
| "combinations [] (Suc r) = []"
| "combinations (x # xs) (Suc r) = map ((#) x) (combinations xs r) @ combinations xs (Suc r)"

text \<open>
  The loop \<^verbatim>\<open>for combo in combos\<close> with its two breaks. The state is the counter
  \<^verbatim>\<open>limit_check\<close> and the list \<^verbatim>\<open>all_valid_slips\<close>.
\<close>

fun brute_loop ::
  "candidate list list \<Rightarrow> int \<Rightarrow> rat \<Rightarrow> int \<Rightarrow> slip list \<Rightarrow> error + (int \<times> slip list)" where
  "brute_loop [] target_size threshold limit_check all_valid_slips =
     Inr (limit_check, all_valid_slips)"
| "brute_loop (combo # combos) target_size threshold limit_check all_valid_slips =
     (if limit_check + 1 > 3000000 then Inr (limit_check + 1, all_valid_slips)
      else case check_combo combo target_size threshold of
        Inl e \<Rightarrow> Inl e
      | Inr None \<Rightarrow> brute_loop combos target_size threshold (limit_check + 1) all_valid_slips
      | Inr (Some s) \<Rightarrow>
          (if int (length (all_valid_slips @ [s])) \<ge> 2000
           then Inr (limit_check + 1, all_valid_slips @ [s])
           else brute_loop combos target_size threshold (limit_check + 1)
                  (all_valid_slips @ [s])))"

text \<open>\<^verbatim>\<open>itertools.combinations\<close> raises \<^verbatim>\<open>ValueError\<close> for a negative size.\<close>

definition brute_force :: "candidate list \<Rightarrow> int \<Rightarrow> rat \<Rightarrow> error + (int \<times> slip list)" where
  "brute_force pool target_size threshold =
     (if target_size < 0 then Inl ValueError
      else brute_loop (combinations pool (nat target_size)) target_size threshold 0 [])"

subsection \<open>Strategy 3: random samples\<close>

text \<open>
  \<^verbatim>\<open>random.sample(population, k)\<close> for \<open>0 \<le> k \<le> len(population)\<close>: \<open>k\<close> draws
  without replacement. Draw number \<open>j\<close> takes the element at position \<open>g j\<close> modulo the
  number of elements left, so every choice of \<open>k\<close> positions in every order comes from
  some \<open>g\<close>.
\<close>

fun draw :: "(nat \<Rightarrow> nat) \<Rightarrow> nat \<Rightarrow> 'a list \<Rightarrow> nat \<Rightarrow> 'a list" where
  "draw g j xs 0 = []"
| "draw g j [] (Suc k) = []"
| "draw g j (x # xs) (Suc k) =
     (let i = g j mod length (x # xs)
      in (x # xs) ! i # draw g (Suc j) (take i (x # xs) @ drop (Suc i) (x # xs)) k)"

definition random_sample :: "(nat \<Rightarrow> nat) \<Rightarrow> 'a list \<Rightarrow> int \<Rightarrow> error + 'a list" where
  "random_sample g population k =
     (if k < 0 \<or> int (length population) < k then Inl ValueError
      else Inr (draw g 0 population (nat k)))"

definition iterations :: int where
  "iterations = 200000"

text \<open>
  The loop \<^verbatim>\<open>for _ in range(iterations)\<close>: \<open>t\<close> is the number of the trial.
  \<^verbatim>\<open>except ValueError: break\<close> ends the loop.
\<close>

function monte_carlo_loop ::
  "(nat \<Rightarrow> nat \<Rightarrow> nat) \<Rightarrow> candidate list \<Rightarrow> int \<Rightarrow> rat \<Rightarrow> int \<Rightarrow> slip list
     \<Rightarrow> error + slip list" where
  "monte_carlo_loop rng pool target_size threshold t all_valid_slips =
     (if t < iterations
      then (case random_sample (rng (nat t)) pool target_size of
              Inl ValueError \<Rightarrow> Inr all_valid_slips
            | Inl e \<Rightarrow> Inl e
            | Inr combo \<Rightarrow>
                (case check_combo combo target_size threshold of
                   Inl e \<Rightarrow> Inl e
                 | Inr None \<Rightarrow>
                     monte_carlo_loop rng pool target_size threshold (t + 1) all_valid_slips
                 | Inr (Some s) \<Rightarrow>
                     monte_carlo_loop rng pool target_size threshold (t + 1)
                       (all_valid_slips @ [s])))
      else Inr all_valid_slips)"
  by pat_completeness auto
termination
  by (relation "measure (\<lambda>(rng, pool, target_size, threshold, t, slips). nat (iterations - t))")
     auto

declare monte_carlo_loop.simps [simp del]

definition monte_carlo ::
  "(nat \<Rightarrow> nat \<Rightarrow> nat) \<Rightarrow> candidate list \<Rightarrow> int \<Rightarrow> rat \<Rightarrow> error + slip list" where
  "monte_carlo rng pool target_size threshold =
     monte_carlo_loop rng pool target_size threshold 0 []"

subsection \<open>The ranking\<close>

text \<open>
  The loop over the sorted slips: a slip is kept when none of its ids is in
  \<^verbatim>\<open>used_prop_ids\<close>; the loop ends when \<^verbatim>\<open>limit\<close> slips are kept.
\<close>

fun rank_loop :: "slip list \<Rightarrow> slip list \<Rightarrow> string set \<Rightarrow> slip list" where
  "rank_loop [] final_slips used_prop_ids = final_slips"
| "rank_loop (s # rest) final_slips used_prop_ids =
     (if Leg_Ids s \<inter> used_prop_ids = {}
      then (if int (length (final_slips @ [s])) \<ge> 1000 then final_slips @ [s]
            else rank_loop rest (final_slips @ [s]) (used_prop_ids \<union> Leg_Ids s))
      else (if int (length final_slips) \<ge> 1000 then final_slips
            else rank_loop rest final_slips used_prop_ids))"

definition rank_slips :: "slip list \<Rightarrow> slip list" where
  "rank_slips all_valid_slips = rank_loop (sort_slips all_valid_slips) [] {}"

subsection \<open>\<^verbatim>\<open>get_slips\<close> and \<^verbatim>\<open>dashboard\<close>\<close>

text \<open>The choice of the strategy for a size other than 1: the list \<^verbatim>\<open>all_valid_slips\<close> before the ranking.\<close>

definition slip_search ::
  "(nat \<Rightarrow> nat \<Rightarrow> nat) \<Rightarrow> candidate list \<Rightarrow> int \<Rightarrow> string \<Rightarrow> error + slip list" where
  "slip_search rng candidates target_size style =
     (let threshold = threshold_of style target_size;
          pool = sort_pool candidates;
          is_monte_carlo = (target_size \<ge> 5)
      in if target_size = 2 \<and> style = ''power'' then Inr (greedy_pairs pool threshold [])
         else if \<not> is_monte_carlo
         then (case brute_force pool target_size threshold of
                 Inl e \<Rightarrow> Inl e
               | Inr (limit_check, all_valid_slips) \<Rightarrow> Inr all_valid_slips)
         else monte_carlo rng pool target_size threshold)"

definition get_slips ::
  "(string \<Rightarrow> fl option) \<Rightarrow> (nat \<Rightarrow> nat \<Rightarrow> nat) \<Rightarrow> row list \<Rightarrow> int \<Rightarrow> string
     \<Rightarrow> error + slip list" where
  "get_slips pf rng all_props target_size style =
     (let candidates = row_loop pf all_props []
      in if candidates = [] then Inr []
         else if target_size = 1 then Inr (single_props candidates)
         else (case slip_search rng candidates target_size style of
                 Inl e \<Rightarrow> Inl e
               | Inr all_valid_slips \<Rightarrow> Inr (rank_slips all_valid_slips)))"

text \<open>
  The route \<^verbatim>\<open>/\<close>. The two arguments of the request are \<open>None\<close> when the request
  lacks them; the result is what the template receives.
\<close>

definition dashboard ::
  "(string \<Rightarrow> int option) \<Rightarrow> (string \<Rightarrow> fl option) \<Rightarrow> (nat \<Rightarrow> nat \<Rightarrow> nat) \<Rightarrow> row list
     \<Rightarrow> string option \<Rightarrow> string option \<Rightarrow> error + (slip list \<times> int \<times> string)" where
  "dashboard pint pf rng all_props style_param size_param =
     (let style0 = (case style_param of None \<Rightarrow> ''Power'' | Some s \<Rightarrow> s);
          size_arg = (case size_param of None \<Rightarrow> ''6'' | Some s \<Rightarrow> s);
          size = (case pint size_arg of None \<Rightarrow> 6 | Some n \<Rightarrow> n);
          style1 = (if style0 \<notin> set [''power'', ''flex'', ''props''] then ''power'' else style0);
          style = (if size = 1 then ''props'' else style1)
      in case get_slips pf rng all_props size style of
           Inl e \<Rightarrow> Inl e
         | Inr slips \<Rightarrow> Inr (slips, size, style))"

subsection \<open>Notions used in the statements\<close>



text \<open>No id is in the id sets of two slips of the list.\<close>

fun disjoint_slips :: "slip list \<Rightarrow> bool" where
  "disjoint_slips [] = True"
| "disjoint_slips (s # ss) = ((\<forall>t \<in> set ss. Leg_Ids s \<inter> Leg_Ids t = {}) \<and> disjoint_slips ss)"

text \<open>The slip a combination contributes to the list of strategy 2, if it passes the test.\<close>

definition accept_combo :: "int \<Rightarrow> rat \<Rightarrow> candidate list \<Rightarrow> slip option" where
  "accept_combo target_size threshold combo =
     (case check_combo combo target_size threshold of
        Inl e \<Rightarrow> None | Inr None \<Rightarrow> None | Inr (Some s) \<Rightarrow> Some s)"

subsection \<open>Example inputs\<close>

text \<open>
  A reading of \<^verbatim>\<open>float\<close> and of \<^verbatim>\<open>int\<close> on the few strings the examples use, a
  generator that always produces 0, and a row with both lines present and half a point apart.
\<close>

definition ex_float :: "string \<Rightarrow> fl option" where
  "ex_float s = (if s = ''25.5'' then Some (Fin 25.5) else if s = ''25'' then Some (Fin 25) else None)"

definition ex_int :: "string \<Rightarrow> int option" where
  "ex_int s = (if s = ''0'' then Some 0 else if s = ''-1'' then Some (- 1)
               else if s = ''2'' then Some 2 else if s = ''3'' then Some 3 else None)"

definition ex_rng :: "nat \<Rightarrow> nat \<Rightarrow> nat" where
  "ex_rng t j = 0"

definition ex_row :: "string \<Rightarrow> string \<Rightarrow> string \<Rightarrow> rat \<Rightarrow> rat \<Rightarrow> row" where
  "ex_row player team prop fair_over fair_under =
     \<lparr> col_FanDuel_Line = Str ''25.5'',
       col_PrizePicks_Line = Str ''25'',
       col_FD_Fair_Over = Flt (Fin fair_over),
       col_FD_Fair_Under = Flt (Fin fair_under),
       col_Player_Image = ''NL'',
       col_Team = team,
       col_Player = player,
       col_Prop_Type = prop,
       col_Sport = ''NFL'' \<rparr>"

section \<open>Properties of the Odds Normalizer\<close>

lemma get_implied_value:
  "get_implied american_odds =
     Inr (if american_odds > 0 then 100 / of_int (american_odds + 100)
          else of_int \<bar>american_odds\<bar> / of_int (\<bar>american_odds\<bar> + 100))"
proof (cases "american_odds > 0")
  case True
  then have "(of_int (american_odds + 100) :: rat) \<noteq> 0" by simp
  with True show ?thesis by (simp add: get_implied_def truediv_def)
next
  case False
  have "\<bar>american_odds\<bar> + 100 \<noteq> 0" by arith
  then have "(of_int (\<bar>american_odds\<bar> + 100) :: rat) \<noteq> 0"
    using of_int_eq_0_iff by blast
  with False show ?thesis by (simp add: get_implied_def truediv_def)
qed

lemma get_implied_nonneg:
  assumes "get_implied american_odds = Inr p"
  shows "0 \<le> p"
proof -
  have p: "p = (if american_odds > 0 then 100 / of_int (american_odds + 100)
          else of_int \<bar>american_odds\<bar> / of_int (\<bar>american_odds\<bar> + 100))"
    using assms by (simp add: get_implied_value)
  show ?thesis
  proof (cases "american_odds > 0")
    case True
    then have "(0::rat) < of_int (american_odds + 100)" by simp
    with True p show ?thesis by simp
  next
    case False
    have "(0::rat) < of_int (\<bar>american_odds\<bar> + 100)" by simp
    moreover have "(0::rat) \<le> of_int \<bar>american_odds\<bar>" by simp
    ultimately have "(0::rat) \<le> of_int \<bar>american_odds\<bar> / of_int (\<bar>american_odds\<bar> + 100)"
      by (intro divide_nonneg_pos)
    with False p show ?thesis by simp
  qed
qed

lemma novig_body_value:
  assumes "get_implied over_odds = Inr p" "get_implied under_odds = Inr q"
  shows "novig_body over_odds under_odds =
           (if p + q = 0 then Inl ZeroDivisionError else Inr (p / (p + q), q / (p + q)))"
  using assms by (simp add: novig_body_def truediv_def Let_def)

text \<open>
  Claim C4. For two American odds whose implied probabilities do not sum to zero, the
  normalizer returns each implied probability divided by their sum: the two results sum
  to 1 and each lies between 0 and 1. The implied probability of positive odds \<open>o\<close> is
  \<open>100 / (o + 100)\<close>, that of other odds \<open>|o| / (|o| + 100)\<close>. (Floats are exact
  rationals here, so the sum is exactly 1.)
\<close>

theorem calculate_novig_fair:
  assumes "get_implied over_odds = Inr p" and "get_implied under_odds = Inr q"
    and "p + q \<noteq> 0"
  shows "calculate_novig over_odds under_odds = Inr (p / (p + q), q / (p + q))
       \<and> p / (p + q) + q / (p + q) = 1
       \<and> 0 \<le> p / (p + q) \<and> p / (p + q) \<le> 1
       \<and> 0 \<le> q / (p + q) \<and> q / (p + q) \<le> 1
       \<and> p = (if over_odds > 0 then 100 / of_int (over_odds + 100)
                else of_int \<bar>over_odds\<bar> / of_int (\<bar>over_odds\<bar> + 100))
       \<and> q = (if under_odds > 0 then 100 / of_int (under_odds + 100)
                else of_int \<bar>under_odds\<bar> / of_int (\<bar>under_odds\<bar> + 100))"
proof -
  have p0: "0 \<le> p" and q0: "0 \<le> q"
    using assms(1,2) by (auto dest: get_implied_nonneg)
  with assms(3) have pos: "0 < p + q" by linarith
  have c: "calculate_novig over_odds under_odds = Inr (p / (p + q), q / (p + q))"
    using assms by (simp add: calculate_novig_def novig_body_value)
  have s: "p / (p + q) + q / (p + q) = 1"
    using pos by (simp add: add_divide_distrib [symmetric])
  have a: "0 \<le> p / (p + q)" "0 \<le> q / (p + q)"
    using p0 q0 pos by simp_all
  have b: "p / (p + q) \<le> 1" "q / (p + q) \<le> 1"
    using p0 q0 pos by simp_all
  have pv: "p = (if over_odds > 0 then 100 / of_int (over_odds + 100)
                else of_int \<bar>over_odds\<bar> / of_int (\<bar>over_odds\<bar> + 100))"
    using assms(1) by (simp add: get_implied_value)
  have qv: "q = (if under_odds > 0 then 100 / of_int (under_odds + 100)
                else of_int \<bar>under_odds\<bar> / of_int (\<bar>under_odds\<bar> + 100))"
    using assms(2) by (simp add: get_implied_value)
  from c s a b pv qv show ?thesis by blast
qed

theorem calculate_novig_fair_witness:
  "get_implied (-110) = Inr (11 / 21) \<and> get_implied 150 = Inr (2 / 5)
   \<and> calculate_novig (-110) 150 = Inr (55 / 97, 42 / 97)"
proof -
  have 1: "get_implied (-110) = Inr (11 / 21)" by code_simp
  have 2: "get_implied 150 = Inr (2 / 5)" by code_simp
  have 3: "(11 / 21 :: rat) + 2 / 5 \<noteq> 0" by simp
  have 4: "((11 / 21) / (11 / 21 + 2 / 5) :: rat) = 55 / 97" by simp
  have 5: "((2 / 5) / (11 / 21 + 2 / 5) :: rat) = 42 / 97" by simp
  show ?thesis using calculate_novig_fair [OF 1 2 3] 1 2 4 5 by simp
qed

text \<open>
  Claim C9. When both implied probabilities are zero, the normalizer returns the pair
  \<open>(0, 0)\<close>: the division by the zero sum raises \<^verbatim>\<open>ZeroDivisionError\<close>, which the
  function catches.
\<close>

theorem calculate_novig_degenerate:
  assumes "get_implied over_odds = Inr 0" and "get_implied under_odds = Inr 0"
  shows "calculate_novig over_odds under_odds = Inr (0, 0)"
  using assms by (simp add: calculate_novig_def novig_body_value)

theorem calculate_novig_degenerate_witness:
  "get_implied 0 = Inr 0 \<and> calculate_novig 0 0 = Inr (0, 0)"
proof -
  have 1: "get_implied 0 = Inr 0" by code_simp
  show ?thesis using calculate_novig_degenerate [OF 1 1] 1 by simp
qed


section \<open>Properties of the Candidate Extractor\<close>








section \<open>Properties of the single-prop view\<close>

lemma sort_pool_mset: "mset (sort_pool pool) = mset pool"
  by (simp add: sort_pool_def)

lemma sort_pool_length: "length (sort_pool pool) = length pool"
  by (simp add: sort_pool_def)

lemma sort_pool_set: "set (sort_pool pool) = set pool"
  by (simp add: sort_pool_def)

lemma sort_pool_sorted: "sorted_wrt (\<ge>) (map Fair_Win_Pct (sort_pool pool))"
proof -
  have "sorted (map (\<lambda>x. - Fair_Win_Pct x) (sort_pool pool))"
    unfolding sort_pool_def by (rule sorted_sort_key)
  then show ?thesis by (simp add: sorted_wrt_map)
qed

lemma single_props_avg:
  "map Avg_Win_Pct (single_props pool) = map Fair_Win_Pct (take 51 (sort_pool pool))"
  by (simp add: single_props_def prop_slip_def)

lemma single_props_sorted: "sorted_wrt (\<ge>) (map Avg_Win_Pct (single_props pool))"
proof -
  have "sorted_wrt (\<ge>) (take 51 (map Fair_Win_Pct (sort_pool pool)))"
    using sort_pool_sorted by (rule sorted_wrt_take)
  then show ?thesis by (simp add: single_props_avg take_map)
qed

lemma single_props_member:
  assumes "s \<in> set (single_props pool)"
  shows "Is_Fallback s \<and> (\<exists>c \<in> set pool. Legs s = [c] \<and> Avg_Win_Pct s = Fair_Win_Pct c
           \<and> Total_Edge s = Edge c \<and> Leg_Ids s = {leg_id c})"
proof -
  from assms obtain c where c: "c \<in> set (take 51 (sort_pool pool))" "s = prop_slip c"
    by (auto simp: single_props_def)
  from c(1) have "c \<in> set pool"
    using set_take_subset [of 51 "sort_pool pool"] by (auto simp: sort_pool_set)
  with c(2) show ?thesis by (auto simp: prop_slip_def)
qed

lemma get_slips_single:
  "get_slips pf rng all_props 1 style = Inr (single_props (row_loop pf all_props []))"
  by (simp add: get_slips_def Let_def single_props_def sort_pool_def)

text \<open>
  Claim C7. A request of size 1 returns one entry for each of the first 51 candidates of
  the pool sorted by descending fair win percentage, so \<open>min 51 n\<close> entries for a pool
  of \<open>n\<close> candidates, in descending order. Each entry has a single leg, that
  candidate's fair win percentage as its average and the fallback flag set; no threshold
  takes part.
\<close>

theorem single_prop_view:
  "get_slips pf rng all_props 1 style = Inr (single_props (row_loop pf all_props []))
   \<and> length (single_props (row_loop pf all_props [])) = min 51 (length (row_loop pf all_props []))
   \<and> sorted_wrt (\<ge>) (map Avg_Win_Pct (single_props (row_loop pf all_props [])))
   \<and> map Legs (single_props (row_loop pf all_props []))
       = map (\<lambda>c. [c]) (take 51 (sort_pool (row_loop pf all_props [])))
   \<and> mset (sort_pool (row_loop pf all_props [])) = mset (row_loop pf all_props [])
   \<and> sorted_wrt (\<ge>) (map Fair_Win_Pct (sort_pool (row_loop pf all_props [])))
   \<and> (\<forall>s \<in> set (single_props (row_loop pf all_props [])).
         Is_Fallback s
       \<and> (\<exists>c \<in> set (row_loop pf all_props []).
             Legs s = [c] \<and> Avg_Win_Pct s = Fair_Win_Pct c
           \<and> Total_Edge s = Edge c \<and> Leg_Ids s = {leg_id c}))"
proof -
  have l: "length (single_props (row_loop pf all_props [])) = min 51 (length (row_loop pf all_props []))"
    by (simp add: single_props_def sort_pool_length min.commute)
  have m: "map Legs (single_props (row_loop pf all_props []))
       = map (\<lambda>c. [c]) (take 51 (sort_pool (row_loop pf all_props [])))"
    by (simp add: single_props_def prop_slip_def)
  show ?thesis
    using get_slips_single l single_props_sorted m sort_pool_mset sort_pool_sorted
      single_props_member
    by blast
qed

theorem single_prop_view_witness:
  "get_slips ex_float ex_rng
     [ex_row ''B'' ''JAX - LB'' ''Points'' 40 58, ex_row ''C'' ''NYJ'' ''Points'' 50 50,
      ex_row ''A'' ''BUF - QB'' ''Points'' 60 58] 1 ''props''
   = Inr (single_props (row_loop ex_float
     [ex_row ''B'' ''JAX - LB'' ''Points'' 40 58, ex_row ''C'' ''NYJ'' ''Points'' 50 50,
      ex_row ''A'' ''BUF - QB'' ''Points'' 60 58] []))
   \<and> map Avg_Win_Pct (single_props (row_loop ex_float
     [ex_row ''B'' ''JAX - LB'' ''Points'' 40 58, ex_row ''C'' ''NYJ'' ''Points'' 50 50,
      ex_row ''A'' ''BUF - QB'' ''Points'' 60 58] [])) = [60, 58]
   \<and> Is_Fallback (hd (single_props (row_loop ex_float
     [ex_row ''B'' ''JAX - LB'' ''Points'' 40 58, ex_row ''C'' ''NYJ'' ''Points'' 50 50,
      ex_row ''A'' ''BUF - QB'' ''Points'' 60 58] [])))"
proof -
  have a: "map Avg_Win_Pct (single_props (row_loop ex_float
     [ex_row ''B'' ''JAX - LB'' ''Points'' 40 58, ex_row ''C'' ''NYJ'' ''Points'' 50 50,
      ex_row ''A'' ''BUF - QB'' ''Points'' 60 58] [])) = [60, 58]"
    by code_simp
  have m: "hd (single_props (row_loop ex_float
     [ex_row ''B'' ''JAX - LB'' ''Points'' 40 58, ex_row ''C'' ''NYJ'' ''Points'' 50 50,
      ex_row ''A'' ''BUF - QB'' ''Points'' 60 58] []))
    \<in> set (single_props (row_loop ex_float
     [ex_row ''B'' ''JAX - LB'' ''Points'' 40 58, ex_row ''C'' ''NYJ'' ''Points'' 50 50,
      ex_row ''A'' ''BUF - QB'' ''Points'' 60 58] []))"
    by code_simp
  from single_prop_view [of ex_float ex_rng "[ex_row ''B'' ''JAX - LB'' ''Points'' 40 58, ex_row ''C'' ''NYJ'' ''Points'' 50 50,
      ex_row ''A'' ''BUF - QB'' ''Points'' 60 58]" "''props''"] a m
  show ?thesis by blast
qed

section \<open>Properties of the ranking\<close>

lemma disjoint_slips_snoc:
  "disjoint_slips (xs @ [s]) =
     (disjoint_slips xs \<and> (\<forall>t \<in> set xs. Leg_Ids t \<inter> Leg_Ids s = {}))"
  by (induction xs) auto

lemma disjoint_slips_nth:
  assumes "disjoint_slips xs" and "i < j" and "j < length xs"
  shows "Leg_Ids (xs ! i) \<inter> Leg_Ids (xs ! j) = {}"
  using assms
proof (induction xs arbitrary: i j)
  case Nil
  then show ?case by simp
next
  case (Cons x xs)
  from Cons.prems(2) obtain j' where j: "j = Suc j'" by (cases j) auto
  with Cons.prems(3) have j': "j' < length xs" by simp
  show ?case
  proof (cases i)
    case 0
    from j' have "xs ! j' \<in> set xs" by simp
    with Cons.prems(1) 0 j show ?thesis by simp
  next
    case (Suc i')
    with Cons.prems(2) j have "i' < j'" by simp
    from Cons.IH [OF _ this j'] Cons.prems(1) Suc j show ?thesis by simp
  qed
qed

lemma rank_loop_disjoint:
  assumes "disjoint_slips final_slips" and "\<forall>t \<in> set final_slips. Leg_Ids t \<subseteq> used"
  shows "disjoint_slips (rank_loop xs final_slips used)"
  using assms
proof (induction xs arbitrary: final_slips used)
  case Nil
  then show ?case by simp
next
  case (Cons s xs)
  show ?case
  proof (cases "Leg_Ids s \<inter> used = {}")
    case True
    have d: "disjoint_slips (final_slips @ [s])"
      using Cons.prems True by (auto simp: disjoint_slips_snoc)
    have u: "\<forall>t \<in> set (final_slips @ [s]). Leg_Ids t \<subseteq> used \<union> Leg_Ids s"
      using Cons.prems(2) by auto
    from Cons.IH [OF d u] d True show ?thesis by simp
  next
    case False
    with Cons.IH [OF Cons.prems] Cons.prems(1) show ?thesis by simp
  qed
qed


lemma rank_slips_disjoint: "disjoint_slips (rank_slips all_valid_slips)"
  unfolding rank_slips_def by (rule rank_loop_disjoint) simp_all


lemma prop_slips_disjoint:
  assumes "distinct (map leg_id cs)"
  shows "disjoint_slips (map prop_slip cs)"
  using assms by (induction cs) (auto simp: prop_slip_def)

lemma get_slips_cases:
  assumes "get_slips pf rng all_props target_size style = Inr slips"
  shows "slips = []
       \<or> (target_size = 1 \<and> slips = single_props (row_loop pf all_props []))
       \<or> (target_size \<noteq> 1 \<and> row_loop pf all_props [] \<noteq> []
           \<and> (\<exists>raw. slip_search rng (row_loop pf all_props []) target_size style = Inr raw
                    \<and> slips = rank_slips raw))"
  using assms by (auto simp: get_slips_def Let_def split: if_splits sum.splits)

text \<open>
  Claim C3, as the code has it. The ranking keeps a slip only when none of its ids was
  used by a slip kept before, so for every target size other than 1 no id is in the id
  sets of two returned slips. The single-prop view of size 1 returns before the ranking:
  its entries are disjoint when the ids of the (at most 51) candidates it shows are
  pairwise different.
\<close>

theorem final_slips_disjoint:
  assumes "get_slips pf rng all_props target_size style = Inr slips"
    and "target_size = 1 \<longrightarrow>
           distinct (map leg_id (take 51 (sort_pool (row_loop pf all_props []))))"
    and "i < j" and "j < length slips"
  shows "Leg_Ids (slips ! i) \<inter> Leg_Ids (slips ! j) = {}"
proof -
  have "disjoint_slips slips"
    using get_slips_cases [OF assms(1)] assms(2)
    by (auto simp: rank_slips_disjoint single_props_def prop_slips_disjoint)
  then show ?thesis using assms(3,4) by (rule disjoint_slips_nth)
qed

theorem final_slips_disjoint_witness:
  "get_slips ex_float ex_rng
     [ex_row ''A'' ''BUF - QB'' ''Points'' 60 40, ex_row ''B'' ''JAX - LB'' ''Points'' 59 40,
      ex_row ''C'' ''NYJ - WR'' ''Points'' 40 58, ex_row ''D'' ''MIA - RB'' ''Points'' 40 58]
     2 ''power''
   = Inr (projr (get_slips ex_float ex_rng
     [ex_row ''A'' ''BUF - QB'' ''Points'' 60 40, ex_row ''B'' ''JAX - LB'' ''Points'' 59 40,
      ex_row ''C'' ''NYJ - WR'' ''Points'' 40 58, ex_row ''D'' ''MIA - RB'' ''Points'' 40 58]
     2 ''power''))
   \<and> map Leg_Ids (projr (get_slips ex_float ex_rng
     [ex_row ''A'' ''BUF - QB'' ''Points'' 60 40, ex_row ''B'' ''JAX - LB'' ''Points'' 59 40,
      ex_row ''C'' ''NYJ - WR'' ''Points'' 40 58, ex_row ''D'' ''MIA - RB'' ''Points'' 40 58]
     2 ''power'')) = [{''A_Points'', ''D_Points''}, {''B_Points'', ''C_Points''}]
   \<and> Leg_Ids (projr (get_slips ex_float ex_rng
     [ex_row ''A'' ''BUF - QB'' ''Points'' 60 40, ex_row ''B'' ''JAX - LB'' ''Points'' 59 40,
      ex_row ''C'' ''NYJ - WR'' ''Points'' 40 58, ex_row ''D'' ''MIA - RB'' ''Points'' 40 58]
     2 ''power'') ! 0)
     \<inter> Leg_Ids (projr (get_slips ex_float ex_rng
     [ex_row ''A'' ''BUF - QB'' ''Points'' 60 40, ex_row ''B'' ''JAX - LB'' ''Points'' 59 40,
      ex_row ''C'' ''NYJ - WR'' ''Points'' 40 58, ex_row ''D'' ''MIA - RB'' ''Points'' 40 58]
     2 ''power'') ! 1) = {}"
proof -
  have n: "\<not> isl (get_slips ex_float ex_rng
     [ex_row ''A'' ''BUF - QB'' ''Points'' 60 40, ex_row ''B'' ''JAX - LB'' ''Points'' 59 40,
      ex_row ''C'' ''NYJ - WR'' ''Points'' 40 58, ex_row ''D'' ''MIA - RB'' ''Points'' 40 58]
     2 ''power'')"
    by code_simp
  have e: "get_slips ex_float ex_rng
     [ex_row ''A'' ''BUF - QB'' ''Points'' 60 40, ex_row ''B'' ''JAX - LB'' ''Points'' 59 40,
      ex_row ''C'' ''NYJ - WR'' ''Points'' 40 58, ex_row ''D'' ''MIA - RB'' ''Points'' 40 58]
     2 ''power''
   = Inr (projr (get_slips ex_float ex_rng
     [ex_row ''A'' ''BUF - QB'' ''Points'' 60 40, ex_row ''B'' ''JAX - LB'' ''Points'' 59 40,
      ex_row ''C'' ''NYJ - WR'' ''Points'' 40 58, ex_row ''D'' ''MIA - RB'' ''Points'' 40 58]
     2 ''power''))"
    using n by simp
  have l: "map Leg_Ids (projr (get_slips ex_float ex_rng
     [ex_row ''A'' ''BUF - QB'' ''Points'' 60 40, ex_row ''B'' ''JAX - LB'' ''Points'' 59 40,
      ex_row ''C'' ''NYJ - WR'' ''Points'' 40 58, ex_row ''D'' ''MIA - RB'' ''Points'' 40 58]
     2 ''power'')) = [{''A_Points'', ''D_Points''}, {''B_Points'', ''C_Points''}]"
    by code_simp
  from l have len: "1 < length (projr (get_slips ex_float ex_rng
     [ex_row ''A'' ''BUF - QB'' ''Points'' 60 40, ex_row ''B'' ''JAX - LB'' ''Points'' 59 40,
      ex_row ''C'' ''NYJ - WR'' ''Points'' 40 58, ex_row ''D'' ''MIA - RB'' ''Points'' 40 58]
     2 ''power''))"
    using length_map [of Leg_Ids] by (metis length_Cons lessI list.size(3) One_nat_def)
  have h: "(2::int) = 1 \<longrightarrow> distinct (map leg_id (take 51 (sort_pool (row_loop ex_float
     [ex_row ''A'' ''BUF - QB'' ''Points'' 60 40, ex_row ''B'' ''JAX - LB'' ''Points'' 59 40,
      ex_row ''C'' ''NYJ - WR'' ''Points'' 40 58, ex_row ''D'' ''MIA - RB'' ''Points'' 40 58]
     []))))"
    by simp
  have z: "(0::nat) < 1" by simp
  from final_slips_disjoint [OF e h z len] e l show ?thesis by simp
qed

text \<open>
  Claim C3 as stated fails for size 1: two rows with the same player name and prop type
  give two candidates with the same id, and the single-prop view returns both.
\<close>

theorem single_prop_ids_overlap:
  "get_slips ex_float ex_rng
     [ex_row ''Josh Allen'' ''BUF - QB'' ''Anytime TD'' 60 40,
      ex_row ''Josh Allen'' ''JAX - LB'' ''Anytime TD'' 58 42] 1 ''props''
   = Inr (projr (get_slips ex_float ex_rng
     [ex_row ''Josh Allen'' ''BUF - QB'' ''Anytime TD'' 60 40,
      ex_row ''Josh Allen'' ''JAX - LB'' ''Anytime TD'' 58 42] 1 ''props''))
  \<and> length (projr (get_slips ex_float ex_rng
     [ex_row ''Josh Allen'' ''BUF - QB'' ''Anytime TD'' 60 40,
      ex_row ''Josh Allen'' ''JAX - LB'' ''Anytime TD'' 58 42] 1 ''props'')) = 2
  \<and> Leg_Ids (projr (get_slips ex_float ex_rng
     [ex_row ''Josh Allen'' ''BUF - QB'' ''Anytime TD'' 60 40,
      ex_row ''Josh Allen'' ''JAX - LB'' ''Anytime TD'' 58 42] 1 ''props'') ! 0)
    \<inter> Leg_Ids (projr (get_slips ex_float ex_rng
     [ex_row ''Josh Allen'' ''BUF - QB'' ''Anytime TD'' 60 40,
      ex_row ''Josh Allen'' ''JAX - LB'' ''Anytime TD'' 58 42] 1 ''props'') ! 1)
    = {''Josh Allen_Anytime TD''}"
  by code_simp

section \<open>Properties of the slip search\<close>

subsection \<open>Rounding and thresholds\<close>





subsection \<open>Strategy 1\<close>

lemma find_match_Some:
  assumes "find_match leg1 search_pool threshold n = Some i"
  shows "i < n
       \<and> threshold < (Fair_Win_Pct leg1 + Fair_Win_Pct (search_pool ! i)) / 2
       \<and> Team leg1 \<noteq> Team (search_pool ! i)"
  using assms
proof (induction n)
  case 0
  then show ?case by simp
next
  case (Suc n)
  show ?case
  proof (cases "find_match leg1 search_pool threshold n = Some i")
    case True
    from Suc.IH [OF True] show ?thesis by auto
  next
    case False
    with Suc.prems show ?thesis
      by (auto simp: Let_def split: if_splits)
  qed
qed

lemma greedy_pairs_member:
  assumes "s \<in> set (greedy_pairs search_pool threshold all_valid_slips)"
  shows "s \<in> set all_valid_slips
       \<or> (\<exists>leg1 \<in> set search_pool. \<exists>leg2 \<in> set search_pool.
             threshold < (Fair_Win_Pct leg1 + Fair_Win_Pct leg2) / 2
           \<and> Team leg1 \<noteq> Team leg2
           \<and> s = pair_slip leg1 leg2 ((Fair_Win_Pct leg1 + Fair_Win_Pct leg2) / 2) threshold)"
  using assms
proof (induction search_pool threshold all_valid_slips rule: greedy_pairs.induct)
  case (1 search_pool threshold all_valid_slips)
  note prem = "1.prems" [unfolded greedy_pairs.simps [of search_pool threshold all_valid_slips]]
  show ?case
  proof (cases search_pool)
    case Nil
    with prem show ?thesis by simp
  next
    case (Cons leg1 rest)
    show ?thesis
    proof (cases "length search_pool \<ge> 2")
      case False
      with prem Cons show ?thesis by simp
    next
      case True
      show ?thesis
      proof (cases "find_match leg1 rest threshold (length rest)")
        case None
        with prem Cons True
        have "s \<in> set (greedy_pairs rest threshold all_valid_slips)" by simp
        from "1.IH"(1) [OF Cons True None this] Cons show ?thesis by auto
      next
        case (Some i)
        note fm = find_match_Some [OF Some]
        let ?new = "pair_slip leg1 (rest ! i)
                      ((Fair_Win_Pct leg1 + Fair_Win_Pct (rest ! i)) / 2) threshold"
        from prem Cons True Some
        have "s \<in> set (greedy_pairs (take i rest @ drop (Suc i) rest) threshold
                        (all_valid_slips @ [?new]))" by simp
        from "1.IH"(2) [OF Cons True Some this]
        consider "s \<in> set all_valid_slips" | "s = ?new"
          | "\<exists>leg1 \<in> set (take i rest @ drop (Suc i) rest).
             \<exists>leg2 \<in> set (take i rest @ drop (Suc i) rest).
               threshold < (Fair_Win_Pct leg1 + Fair_Win_Pct leg2) / 2
             \<and> Team leg1 \<noteq> Team leg2
             \<and> s = pair_slip leg1 leg2 ((Fair_Win_Pct leg1 + Fair_Win_Pct leg2) / 2) threshold"
          by auto
        then show ?thesis
        proof cases
          case 1
          then show ?thesis by simp
        next
          case 2
          from fm have "rest ! i \<in> set rest" by simp
          with 2 fm Cons show ?thesis by auto
        next
          case 3
          have "set (take i rest @ drop (Suc i) rest) \<subseteq> set search_pool"
            using set_take_subset [of i rest] set_drop_subset [of "Suc i" rest] Cons by auto
          with 3 show ?thesis by blast
        qed
      qed
    qed
  qed
qed

subsection \<open>The test of a combination\<close>

lemma check_combo_Some:
  assumes "check_combo combo target_size threshold = Inr (Some s)"
  shows "target_size \<noteq> 0
       \<and> threshold < sum_list (map Fair_Win_Pct combo) / of_int target_size
       \<and> int (card (set (map Player combo))) = target_size
       \<and> 2 \<le> card (set (map Team combo))
       \<and> s = combo_slip combo (sum_list (map Fair_Win_Pct combo) / of_int target_size) threshold"
  using assms
  by (auto simp: check_combo_def truediv_def split: if_splits)

subsection \<open>Strategy 2\<close>

lemma combinations_length:
  assumes "c \<in> set (combinations xs r)"
  shows "length c = r"
  using assms by (induction xs r arbitrary: c rule: combinations.induct) auto

lemma brute_loop_member:
  assumes "brute_loop combos target_size threshold limit_check all_valid_slips = Inr (n, out)"
    and "s \<in> set out"
  shows "s \<in> set all_valid_slips
       \<or> (\<exists>combo \<in> set combos. check_combo combo target_size threshold = Inr (Some s))"
  using assms
proof (induction combos arbitrary: limit_check all_valid_slips)
  case Nil
  then show ?case by simp
next
  case (Cons combo combos)
  show ?case
  proof (cases "limit_check + 1 > 3000000")
    case True
    with Cons.prems show ?thesis by simp
  next
    case False
    show ?thesis
    proof (cases "check_combo combo target_size threshold")
      case (Inl e)
      with Cons.prems False show ?thesis by simp
    next
      case (Inr r)
      show ?thesis
      proof (cases r)
        case None
        with Cons.prems False Inr
        have "brute_loop combos target_size threshold (limit_check + 1) all_valid_slips
                = Inr (n, out)" by simp
        from Cons.IH [OF this Cons.prems(2)] show ?thesis by auto
      next
        case (Some new)
        show ?thesis
        proof (cases "int (length (all_valid_slips @ [new])) \<ge> 2000")
          case True
          with Cons.prems False Inr Some show ?thesis by auto
        next
          case False': False
          with Cons.prems False Inr Some
          have "brute_loop combos target_size threshold (limit_check + 1)
                  (all_valid_slips @ [new]) = Inr (n, out)" by simp
          from Cons.IH [OF this Cons.prems(2)] Inr Some show ?thesis by auto
        qed
      qed
    qed
  qed
qed

subsection \<open>Strategy 3\<close>

lemma draw_length: "length (draw g j xs k) = min k (length xs)"
proof (induction g j xs k rule: draw.induct)
  case (1 g j xs)
  show ?case by simp
next
  case (2 g j k)
  show ?case by simp
next
  case (3 g j x xs k)
  let ?i = "g j mod length (x # xs)"
  have i: "?i \<le> length xs"
    using mod_less_divisor [of "length (x # xs)" "g j"] by simp
  have t: "length (take ?i (x # xs)) = ?i" using i by simp
  have d: "length (drop (Suc ?i) (x # xs)) = length xs - ?i" by simp
  have "length (take ?i (x # xs) @ drop (Suc ?i) (x # xs)) = length xs"
    unfolding length_append t d using i by arith
  with "3.IH" [of ?i] show ?case by (simp add: Let_def)
qed

lemma random_sample_length:
  assumes "random_sample g population k = Inr combo"
  shows "int (length combo) = k"
  using assms by (auto simp: random_sample_def draw_length split: if_splits)

lemma monte_carlo_loop_member:
  assumes "monte_carlo_loop rng pool target_size threshold t all_valid_slips = Inr out"
    and "s \<in> set out"
  shows "s \<in> set all_valid_slips
       \<or> (\<exists>g combo. random_sample g pool target_size = Inr combo
                   \<and> check_combo combo target_size threshold = Inr (Some s))"
  using assms
proof (induction rng pool target_size threshold t all_valid_slips
       rule: monte_carlo_loop.induct)
  case (1 rng pool target_size threshold t all_valid_slips)
  show ?case
  proof (cases "t < iterations")
    case False
    with "1.prems" show ?thesis by (simp add: monte_carlo_loop.simps)
  next
    case True
    show ?thesis
    proof (cases "random_sample (rng (nat t)) pool target_size")
      case (Inl e)
      with "1.prems" True show ?thesis
        by (cases e) (simp_all add: monte_carlo_loop.simps [of rng pool target_size threshold t])
    next
      case (Inr combo)
      show ?thesis
      proof (cases "check_combo combo target_size threshold")
        case (Inl e)
        with "1.prems" True Inr show ?thesis
          by (simp add: monte_carlo_loop.simps [of rng pool target_size threshold t])
      next
        case r: (Inr r)
        show ?thesis
        proof (cases r)
          case None
          with "1.prems" True Inr r
          have "monte_carlo_loop rng pool target_size threshold (t + 1) all_valid_slips = Inr out"
            by (simp add: monte_carlo_loop.simps [of rng pool target_size threshold t])
          from "1.IH"(1) [OF True Inr r None this "1.prems"(2)] show ?thesis .
        next
          case (Some new)
          with "1.prems" True Inr r
          have "monte_carlo_loop rng pool target_size threshold (t + 1)
                  (all_valid_slips @ [new]) = Inr out"
            by (simp add: monte_carlo_loop.simps [of rng pool target_size threshold t])
          from "1.IH"(2) [OF True Inr r Some this "1.prems"(2)] Inr r Some
          show ?thesis by auto
        qed
      qed
    qed
  qed
qed

subsection \<open>The slip search as a whole\<close>

lemma slip_search_member:
  assumes "slip_search rng candidates target_size style = Inr raw" and "s \<in> set raw"
  shows "(target_size = 2 \<and> style = ''power''
          \<and> (\<exists>leg1 leg2.
                threshold_of style target_size < (Fair_Win_Pct leg1 + Fair_Win_Pct leg2) / 2
              \<and> Team leg1 \<noteq> Team leg2
              \<and> s = pair_slip leg1 leg2 ((Fair_Win_Pct leg1 + Fair_Win_Pct leg2) / 2)
                      (threshold_of style target_size)))
       \<or> (\<not> (target_size = 2 \<and> style = ''power'')
          \<and> (\<exists>combo. int (length combo) = target_size
                \<and> check_combo combo target_size (threshold_of style target_size)
                    = Inr (Some s)))"
proof (cases "target_size = 2 \<and> style = ''power''")
  case True
  with assms have "s \<in> set (greedy_pairs (sort_pool candidates)
                              (threshold_of style target_size) [])"
    by (auto simp: slip_search_def Let_def)
  from greedy_pairs_member [OF this] True show ?thesis by auto
next
  case False
  show ?thesis
  proof (cases "target_size \<ge> 5")
    case True
    with assms False
    have "monte_carlo_loop rng (sort_pool candidates) target_size
            (threshold_of style target_size) 0 [] = Inr raw"
      by (auto simp: slip_search_def Let_def monte_carlo_def)
    from monte_carlo_loop_member [OF this assms(2)] False
    show ?thesis by (auto dest: random_sample_length)
  next
    case small: False
    with assms False obtain n where
      b: "brute_force (sort_pool candidates) target_size (threshold_of style target_size)
            = Inr (n, raw)"
      by (auto simp: slip_search_def Let_def split: sum.splits)
    then have nonneg: "0 \<le> target_size"
      and l: "brute_loop (combinations (sort_pool candidates) (nat target_size)) target_size
             (threshold_of style target_size) 0 [] = Inr (n, raw)"
      by (auto simp: brute_force_def split: if_splits)
    from brute_loop_member [OF l assms(2)] obtain combo where
      c: "combo \<in> set (combinations (sort_pool candidates) (nat target_size))"
         "check_combo combo target_size (threshold_of style target_size) = Inr (Some s)"
      by auto
    from combinations_length [OF c(1)] nonneg have "int (length combo) = target_size" by simp
    with c(2) False show ?thesis by blast
  qed
qed






subsection \<open>Validity of the slips\<close>

text \<open>
  Strategies 2 and 3 keep a combination only when its player names are pairwise different
  and its legs are of at least two teams; strategy 1 tests the teams only.
\<close>

lemma combo_strategies_valid:
  assumes "slip_search rng candidates target_size style = Inr raw" and "s \<in> set raw"
    and "\<not> (target_size = 2 \<and> style = ''power'')"
  shows "distinct (map Player (Legs s)) \<and> 2 \<le> card (set (map Team (Legs s)))
       \<and> int (length (Legs s)) = target_size"
proof -
  from slip_search_member [OF assms(1,2)] assms(3) obtain combo where
    l: "int (length combo) = target_size" and
    c: "check_combo combo target_size (threshold_of style target_size) = Inr (Some s)"
    by auto
  note v = check_combo_Some [OF c]
  from v have legs: "Legs s = combo" by (simp add: combo_slip_def)
  from v l have "card (set (map Player combo)) = length (map Player combo)" by simp
  then have "distinct (map Player combo)" by (rule card_distinct)
  with v l legs show ?thesis by simp
qed

lemma pair_strategy_teams:
  assumes "slip_search rng candidates 2 ''power'' = Inr raw" and "s \<in> set raw"
  shows "\<exists>leg1 leg2. Legs s = [leg1, leg2] \<and> Team leg1 \<noteq> Team leg2"
  using slip_search_member [OF assms] by (auto simp: pair_slip_def)

text \<open>
  Claim C2 at an input where the code departs from it: every slip of a slip search has
  pairwise different player names and at least two teams. Two players of different teams
  have the same name; the pairing of the 2-man power play puts both in one slip, while
  the enumeration (style flex) rejects the same pair.
\<close>

theorem greedy_pair_repeats_player:
  "get_slips ex_float ex_rng
     [ex_row ''Josh Allen'' ''BUF - QB'' ''Passing Yards'' 60 40,
      ex_row ''Josh Allen'' ''JAX - LB'' ''Tackles'' 42 58] 2 ''power''
   = Inr (projr (get_slips ex_float ex_rng
     [ex_row ''Josh Allen'' ''BUF - QB'' ''Passing Yards'' 60 40,
      ex_row ''Josh Allen'' ''JAX - LB'' ''Tackles'' 42 58] 2 ''power''))
   \<and> map (map Player \<circ> Legs) (projr (get_slips ex_float ex_rng
     [ex_row ''Josh Allen'' ''BUF - QB'' ''Passing Yards'' 60 40,
      ex_row ''Josh Allen'' ''JAX - LB'' ''Tackles'' 42 58] 2 ''power''))
     = [[''Josh Allen'', ''Josh Allen'']]
   \<and> map (map Team \<circ> Legs) (projr (get_slips ex_float ex_rng
     [ex_row ''Josh Allen'' ''BUF - QB'' ''Passing Yards'' 60 40,
      ex_row ''Josh Allen'' ''JAX - LB'' ''Tackles'' 42 58] 2 ''power''))
     = [[''BUF'', ''JAX'']]
   \<and> get_slips ex_float ex_rng
     [ex_row ''Josh Allen'' ''BUF - QB'' ''Passing Yards'' 60 40,
      ex_row ''Josh Allen'' ''JAX - LB'' ''Tackles'' 42 58] 2 ''flex'' = Inr []"
  by code_simp

subsection \<open>Exceptions\<close>

text \<open>
  Claim C6 at inputs where the code departs from it: the pipeline never raises. A request
  with \<^verbatim>\<open>size=0\<close> reaches the enumeration, whose only combination is empty, and
  the mean divides by zero; a request with \<^verbatim>\<open>size=-1\<close> makes
  \<^verbatim>\<open>itertools.combinations\<close> raise. Neither exception is caught.
\<close>

theorem dashboard_size_zero_raises:
  "dashboard ex_int ex_float ex_rng [ex_row ''A'' ''BUF - QB'' ''Points'' 60 40]
     (Some ''flex'') (Some ''0'') = Inl ZeroDivisionError
   \<and> dashboard ex_int ex_float ex_rng [ex_row ''A'' ''BUF - QB'' ''Points'' 60 40]
     (Some ''flex'') (Some ''-1'') = Inl ValueError"
  by code_simp

subsection \<open>Determinism\<close>



subsection \<open>The bounds of strategy 2\<close>

lemma map_filter_Cons_take:
  "List.map_filter f (take (Suc e) (c # cs)) =
     (case f c of None \<Rightarrow> [] | Some s \<Rightarrow> [s]) @ List.map_filter f (take e cs)"
  by (simp add: map_filter_simps split: option.splits)

lemma brute_loop_spec:
  assumes "brute_loop combos target_size threshold limit_check all_valid_slips = Inr (n, out)"
    and "int (length all_valid_slips) < 2000" and "limit_check \<le> 3000000"
  shows "\<exists>e \<le> length combos.
           out = all_valid_slips @ List.map_filter (accept_combo target_size threshold) (take e combos)
         \<and> limit_check + int e \<le> 3000000
         \<and> int (length out) \<le> 2000
         \<and> (e = length combos \<and> n = limit_check + int e
            \<or> e < length combos \<and> limit_check + int e = 3000000 \<and> n = 3000001
            \<or> int (length out) = 2000 \<and> n = limit_check + int e)"
  using assms
proof (induction combos arbitrary: limit_check all_valid_slips)
  case Nil
  then show ?case by (simp add: map_filter_simps)
next
  case (Cons combo combos)
  show ?case
  proof (cases "limit_check + 1 > 3000000")
    case True
    with Cons.prems have "out = all_valid_slips" "n = 3000001" "limit_check = 3000000"
      by auto
    with Cons.prems(2) show ?thesis
      by (intro exI [of _ 0]) (simp add: map_filter_simps)
  next
    case False
    show ?thesis
    proof (cases "check_combo combo target_size threshold")
      case (Inl err)
      with Cons.prems False show ?thesis by simp
    next
      case (Inr r)
      show ?thesis
      proof (cases r)
        case None
        with Cons.prems False Inr
        have "brute_loop combos target_size threshold (limit_check + 1) all_valid_slips
                = Inr (n, out)" by simp
        moreover note Cons.prems(2)
        moreover have "limit_check + 1 \<le> 3000000" using False by simp
        ultimately obtain e where
          e: "e \<le> length combos"
             "out = all_valid_slips
                     @ List.map_filter (accept_combo target_size threshold) (take e combos)"
             "limit_check + 1 + int e \<le> 3000000"
             "int (length out) \<le> 2000"
             "e = length combos \<and> n = limit_check + 1 + int e
              \<or> e < length combos \<and> limit_check + 1 + int e = 3000000 \<and> n = 3000001
              \<or> int (length out) = 2000 \<and> n = limit_check + 1 + int e"
          using Cons.IH [of "limit_check + 1" all_valid_slips] by blast
        have a: "accept_combo target_size threshold combo = None"
          using Inr None by (simp add: accept_combo_def)
        show ?thesis
          using e a by (intro exI [of _ "Suc e"]) (auto simp: map_filter_Cons_take)
      next
        case (Some new)
        have a: "accept_combo target_size threshold combo = Some new"
          using Inr Some by (simp add: accept_combo_def)
        show ?thesis
        proof (cases "int (length (all_valid_slips @ [new])) \<ge> 2000")
          case True
          with Cons.prems False Inr Some
          have "out = all_valid_slips @ [new]" "n = limit_check + 1" by auto
          with True Cons.prems(2) False a show ?thesis
            by (intro exI [of _ "Suc 0"]) (auto simp: map_filter_simps)
        next
          case small: False
          with Cons.prems False Inr Some
          have "brute_loop combos target_size threshold (limit_check + 1)
                  (all_valid_slips @ [new]) = Inr (n, out)" by simp
          moreover have "int (length (all_valid_slips @ [new])) < 2000" using small by simp
          moreover have "limit_check + 1 \<le> 3000000" using False by simp
          ultimately obtain e where
            e: "e \<le> length combos"
               "out = (all_valid_slips @ [new])
                       @ List.map_filter (accept_combo target_size threshold) (take e combos)"
               "limit_check + 1 + int e \<le> 3000000"
               "int (length out) \<le> 2000"
               "e = length combos \<and> n = limit_check + 1 + int e
                \<or> e < length combos \<and> limit_check + 1 + int e = 3000000 \<and> n = 3000001
                \<or> int (length out) = 2000 \<and> n = limit_check + 1 + int e"
            using Cons.IH [of "limit_check + 1" "all_valid_slips @ [new]"] by blast
          show ?thesis
            using e a by (intro exI [of _ "Suc e"]) (auto simp: map_filter_Cons_take)
        qed
      qed
    qed
  qed
qed

text \<open>
  Claim C8. The enumeration looks at the combinations in the order of
  \<^verbatim>\<open>itertools.combinations\<close> over the sorted pool and returns the slips of the
  combinations that pass the test among the first \<open>examined\<close> ones, where
  \<open>examined\<close> is at most 3,000,000; it stops early only at 3,000,000 combinations or
  at 2,000 slips, and the list it returns has at most 2,000 slips.
\<close>

theorem brute_force_bounds:
  assumes "brute_force pool target_size threshold = Inr (limit_check, all_valid_slips)"
  shows "length all_valid_slips \<le> 2000
       \<and> (\<exists>examined \<le> length (combinations pool (nat target_size)).
             examined \<le> 3000000
           \<and> all_valid_slips
               = List.map_filter (accept_combo target_size threshold)
                   (take examined (combinations pool (nat target_size)))
           \<and> (examined = length (combinations pool (nat target_size))
              \<or> examined = 3000000
              \<or> length all_valid_slips = 2000))"
proof -
  from assms have
    l: "brute_loop (combinations pool (nat target_size)) target_size threshold 0 []
          = Inr (limit_check, all_valid_slips)"
    by (auto simp: brute_force_def split: if_splits)
  from brute_loop_spec [OF l] obtain e where
    e: "e \<le> length (combinations pool (nat target_size))"
       "all_valid_slips = List.map_filter (accept_combo target_size threshold)
                            (take e (combinations pool (nat target_size)))"
       "int e \<le> 3000000"
       "int (length all_valid_slips) \<le> 2000"
       "e = length (combinations pool (nat target_size))
        \<or> int e = 3000000 \<or> int (length all_valid_slips) = 2000"
    by auto
  from e(3) have e3: "e \<le> 3000000" by simp
  from e(4) have e4: "length all_valid_slips \<le> 2000" by simp
  from e(5) have e5: "e = length (combinations pool (nat target_size))
        \<or> e = 3000000 \<or> length all_valid_slips = 2000" by auto
  from e(1,2) e3 e4 e5 show ?thesis by blast
qed

theorem brute_force_bounds_witness:
  "brute_force (row_loop ex_float
     [ex_row ''A'' ''BUF - QB'' ''Points'' 60 40, ex_row ''B'' ''JAX - LB'' ''Points'' 59 40,
      ex_row ''C'' ''NYJ - WR'' ''Points'' 40 58, ex_row ''D'' ''MIA - RB'' ''Points'' 40 54] []) 3 57.5
     = Inr (fst (projr (brute_force (row_loop ex_float
     [ex_row ''A'' ''BUF - QB'' ''Points'' 60 40, ex_row ''B'' ''JAX - LB'' ''Points'' 59 40,
      ex_row ''C'' ''NYJ - WR'' ''Points'' 40 58, ex_row ''D'' ''MIA - RB'' ''Points'' 40 54] []) 3 57.5)), snd (projr (brute_force (row_loop ex_float
     [ex_row ''A'' ''BUF - QB'' ''Points'' 60 40, ex_row ''B'' ''JAX - LB'' ''Points'' 59 40,
      ex_row ''C'' ''NYJ - WR'' ''Points'' 40 58, ex_row ''D'' ''MIA - RB'' ''Points'' 40 54] []) 3 57.5)))
   \<and> fst (projr (brute_force (row_loop ex_float
     [ex_row ''A'' ''BUF - QB'' ''Points'' 60 40, ex_row ''B'' ''JAX - LB'' ''Points'' 59 40,
      ex_row ''C'' ''NYJ - WR'' ''Points'' 40 58, ex_row ''D'' ''MIA - RB'' ''Points'' 40 54] []) 3 57.5)) = 4
   \<and> map Avg_Win_Pct (snd (projr (brute_force (row_loop ex_float
     [ex_row ''A'' ''BUF - QB'' ''Points'' 60 40, ex_row ''B'' ''JAX - LB'' ''Points'' 59 40,
      ex_row ''C'' ''NYJ - WR'' ''Points'' 40 58, ex_row ''D'' ''MIA - RB'' ''Points'' 40 54] []) 3 57.5))) = [59, 57.67]
   \<and> length (snd (projr (brute_force (row_loop ex_float
     [ex_row ''A'' ''BUF - QB'' ''Points'' 60 40, ex_row ''B'' ''JAX - LB'' ''Points'' 59 40,
      ex_row ''C'' ''NYJ - WR'' ''Points'' 40 58, ex_row ''D'' ''MIA - RB'' ''Points'' 40 54] []) 3 57.5))) \<le> 2000"
proof -
  have n: "\<not> isl (brute_force (row_loop ex_float
     [ex_row ''A'' ''BUF - QB'' ''Points'' 60 40, ex_row ''B'' ''JAX - LB'' ''Points'' 59 40,
      ex_row ''C'' ''NYJ - WR'' ''Points'' 40 58, ex_row ''D'' ''MIA - RB'' ''Points'' 40 54] []) 3 57.5)"
    by code_simp
  have e: "brute_force (row_loop ex_float
     [ex_row ''A'' ''BUF - QB'' ''Points'' 60 40, ex_row ''B'' ''JAX - LB'' ''Points'' 59 40,
      ex_row ''C'' ''NYJ - WR'' ''Points'' 40 58, ex_row ''D'' ''MIA - RB'' ''Points'' 40 54] []) 3 57.5
     = Inr (fst (projr (brute_force (row_loop ex_float
     [ex_row ''A'' ''BUF - QB'' ''Points'' 60 40, ex_row ''B'' ''JAX - LB'' ''Points'' 59 40,
      ex_row ''C'' ''NYJ - WR'' ''Points'' 40 58, ex_row ''D'' ''MIA - RB'' ''Points'' 40 54] []) 3 57.5)), snd (projr (brute_force (row_loop ex_float
     [ex_row ''A'' ''BUF - QB'' ''Points'' 60 40, ex_row ''B'' ''JAX - LB'' ''Points'' 59 40,
      ex_row ''C'' ''NYJ - WR'' ''Points'' 40 58, ex_row ''D'' ''MIA - RB'' ''Points'' 40 54] []) 3 57.5)))"
    using n by simp
  have f: "fst (projr (brute_force (row_loop ex_float
     [ex_row ''A'' ''BUF - QB'' ''Points'' 60 40, ex_row ''B'' ''JAX - LB'' ''Points'' 59 40,
      ex_row ''C'' ''NYJ - WR'' ''Points'' 40 58, ex_row ''D'' ''MIA - RB'' ''Points'' 40 54] []) 3 57.5)) = 4"
    by code_simp
  have a: "map Avg_Win_Pct (snd (projr (brute_force (row_loop ex_float
     [ex_row ''A'' ''BUF - QB'' ''Points'' 60 40, ex_row ''B'' ''JAX - LB'' ''Points'' 59 40,
      ex_row ''C'' ''NYJ - WR'' ''Points'' 40 58, ex_row ''D'' ''MIA - RB'' ''Points'' 40 54] []) 3 57.5))) = [59, 57.67]"
    by code_simp
  from brute_force_bounds [OF e] e f a show ?thesis by blast
qed

subsection \<open>Sizes for which no exception is raised\<close>

text \<open>
  For a target size of at least 1 every loop ends with a list: only the sizes below 1
  raise.
\<close>

lemma check_combo_returns:
  assumes "target_size \<noteq> 0"
  shows "\<exists>r. check_combo combo target_size threshold = Inr r"
  using assms by (simp add: check_combo_def truediv_def)

lemma brute_loop_returns:
  assumes "target_size \<noteq> 0"
  shows "\<exists>r. brute_loop combos target_size threshold limit_check all_valid_slips = Inr r"
proof (induction combos arbitrary: limit_check all_valid_slips)
  case Nil
  show ?case by simp
next
  case (Cons combo combos)
  from check_combo_returns [OF assms] obtain r where
    r: "check_combo combo target_size threshold = Inr r" by blast
  show ?case
  proof (cases r)
    case None
    with r Cons.IH [of "limit_check + 1" all_valid_slips] show ?thesis by simp
  next
    case (Some s)
    with r Cons.IH [of "limit_check + 1" "all_valid_slips @ [s]"] show ?thesis by simp
  qed
qed

lemma monte_carlo_loop_returns:
  assumes "target_size \<noteq> 0"
  shows "\<exists>out. monte_carlo_loop rng pool target_size threshold t all_valid_slips = Inr out"
  using assms
proof (induction rng pool target_size threshold t all_valid_slips
       rule: monte_carlo_loop.induct)
  case (1 rng pool target_size threshold t all_valid_slips)
  note simps = monte_carlo_loop.simps [of rng pool target_size threshold t all_valid_slips]
  show ?case
  proof (cases "t < iterations")
    case False
    then show ?thesis by (simp add: simps)
  next
    case True
    show ?thesis
    proof (cases "random_sample (rng (nat t)) pool target_size")
      case (Inl e)
      then have "e = ValueError" by (auto simp: random_sample_def split: if_splits)
      with Inl True show ?thesis by (simp add: simps)
    next
      case (Inr combo)
      from check_combo_returns [OF "1.prems"] obtain r where
        r: "check_combo combo target_size threshold = Inr r" by blast
      show ?thesis
      proof (cases r)
        case None
        from "1.IH"(1) [OF True Inr r None "1.prems"] True Inr r None
        show ?thesis by (simp add: simps)
      next
        case (Some s)
        from "1.IH"(2) [OF True Inr r Some "1.prems"] True Inr r Some
        show ?thesis by (simp add: simps)
      qed
    qed
  qed
qed

lemma get_slips_returns:
  assumes "1 \<le> target_size"
  shows "\<exists>slips. get_slips pf rng all_props target_size style = Inr slips"
proof -
  have k: "target_size \<noteq> 0" "\<not> target_size < 0" using assms by simp_all
  have "\<exists>raw. slip_search rng candidates target_size style = Inr raw" for candidates
  proof (cases "target_size = 2 \<and> style = ''power''")
    case True
    then show ?thesis by (simp add: slip_search_def)
  next
    case False
    show ?thesis
    proof (cases "target_size \<ge> 5")
      case True
      with False monte_carlo_loop_returns [OF k(1)] show ?thesis
        by (simp add: slip_search_def monte_carlo_def)
    next
      case small: False
      from brute_loop_returns [OF k(1)] obtain r where
        "brute_loop (combinations (sort_pool candidates) (nat target_size)) target_size
           (threshold_of style target_size) 0 [] = Inr r"
        by blast
      with False small k(2) show ?thesis
        by (cases r) (auto simp: slip_search_def Let_def brute_force_def)
    qed
  qed
  then obtain raw where
    "slip_search rng (row_loop pf all_props []) target_size style = Inr raw" by blast
  then show ?thesis by (simp add: get_slips_def Let_def)
qed

lemma dashboard_returns:
  assumes "\<And>n. pint (case size_param of None \<Rightarrow> ''6'' | Some s \<Rightarrow> s) = Some n \<Longrightarrow> 1 \<le> n"
  shows "\<exists>r. dashboard pint pf rng all_props style_param size_param = Inr r"
proof -
  let ?size = "case pint (case size_param of None \<Rightarrow> ''6'' | Some s \<Rightarrow> s) of
                 None \<Rightarrow> 6 | Some n \<Rightarrow> n"
  from assms have "1 \<le> ?size" by (auto split: option.splits)
  then have g: "\<exists>slips. get_slips pf rng all_props ?size style = Inr slips" for style
    by (rule get_slips_returns)
  have "\<exists>style. dashboard pint pf rng all_props style_param size_param =
          (case get_slips pf rng all_props ?size style of
             Inl e \<Rightarrow> Inl e | Inr slips \<Rightarrow> Inr (slips, ?size, style))"
    unfolding dashboard_def Let_def by (rule exI, rule refl)
  then obtain style where
    d: "dashboard pint pf rng all_props style_param size_param =
          (case get_slips pf rng all_props ?size style of
             Inl e \<Rightarrow> Inl e | Inr slips \<Rightarrow> Inr (slips, ?size, style))"
    by blast
  from g [of style] obtain slips where "get_slips pf rng all_props ?size style = Inr slips"
    by blast
  with d show ?thesis by simp
qed

subsection \<open>The random generator at size 5 and above\<close>

lemma length_without_nth:
  assumes "i < length l"
  shows "length (take i l @ drop (Suc i) l) = length l - 1"
proof -
  have "length (take i l) = i" using assms by simp
  moreover have "length (drop (Suc i) l) = length l - Suc i" by simp
  ultimately show ?thesis using assms by simp
qed

lemma draw_mset:
  assumes "length xs \<le> k"
  shows "mset (draw g j xs k) = mset xs"
  using assms
proof (induction g j xs k rule: draw.induct)
  case (1 g j xs)
  then show ?case by simp
next
  case (2 g j k)
  show ?case by simp
next
  case (3 g j x xs k)
  let ?l = "x # xs"
  let ?i = "g j mod length ?l"
  have i: "?i < length ?l" by simp
  have len: "length (take ?i ?l @ drop (Suc ?i) ?l) \<le> k"
    using "3.prems" unfolding length_without_nth [OF i] by simp
  have "mset ?l = mset (take ?i ?l @ ?l ! ?i # drop (Suc ?i) ?l)"
    using i by (simp only: id_take_nth_drop [symmetric])
  also have "\<dots> = add_mset (?l ! ?i) (mset (take ?i ?l @ drop (Suc ?i) ?l))"
    by simp
  finally have m: "mset ?l = add_mset (?l ! ?i) (mset (take ?i ?l @ drop (Suc ?i) ?l))" .
  from "3.IH" [OF refl len] m show ?case by (simp add: Let_def)
qed

lemma sum_list_mset_cong:
  assumes "mset xs = mset ys"
  shows "sum_list (map f xs) = (sum_list (map f ys) :: rat)"
proof -
  have "sum_list (map f xs) = sum_mset (image_mset f (mset xs))"
    by (simp add: sum_mset_sum_list [symmetric])
  also have "\<dots> = sum_mset (image_mset f (mset ys))" by (simp add: assms)
  also have "\<dots> = sum_list (map f ys)" by (simp add: sum_mset_sum_list [symmetric])
  finally show ?thesis .
qed

lemma monte_carlo_loop_prefix:
  assumes "monte_carlo_loop rng pool target_size threshold t all_valid_slips = Inr out"
  shows "\<exists>rest. out = all_valid_slips @ rest"
  using assms
proof (induction rng pool target_size threshold t all_valid_slips
       rule: monte_carlo_loop.induct)
  case (1 rng pool target_size threshold t all_valid_slips)
  note prem = "1.prems" [unfolded
      monte_carlo_loop.simps [of rng pool target_size threshold t all_valid_slips]]
  show ?case
  proof (cases "t < iterations")
    case False
    with prem show ?thesis by simp
  next
    case True
    show ?thesis
    proof (cases "random_sample (rng (nat t)) pool target_size")
      case (Inl e)
      with prem True show ?thesis by (cases e) simp_all
    next
      case (Inr combo)
      show ?thesis
      proof (cases "check_combo combo target_size threshold")
        case (Inl e)
        with prem True Inr show ?thesis by simp
      next
        case r: (Inr r)
        show ?thesis
        proof (cases r)
          case None
          with prem True Inr r
          have "monte_carlo_loop rng pool target_size threshold (t + 1) all_valid_slips = Inr out"
            by simp
          from "1.IH"(1) [OF True Inr r None this] show ?thesis .
        next
          case (Some new)
          with prem True Inr r
          have "monte_carlo_loop rng pool target_size threshold (t + 1)
                  (all_valid_slips @ [new]) = Inr out"
            by simp
          from "1.IH"(2) [OF True Inr r Some this] show ?thesis by auto
        qed
      qed
    qed
  qed
qed

lemma monte_carlo_first:
  assumes "random_sample (rng 0) pool target_size = Inr combo"
    and "check_combo combo target_size threshold = Inr (Some s)"
  shows "\<exists>rest. monte_carlo rng pool target_size threshold = Inr (s # rest)"
proof -
  from check_combo_Some [OF assms(2)] have "target_size \<noteq> 0" by simp
  from monte_carlo_loop_returns [OF this] obtain out where
    out: "monte_carlo_loop rng pool target_size threshold 1 [s] = Inr out"
    by blast
  from monte_carlo_loop_prefix [OF out] obtain rest where "out = s # rest" by auto
  with out assms show ?thesis
    by (simp add: monte_carlo_def iterations_def
          monte_carlo_loop.simps [of rng pool target_size threshold 0 "[]"])
qed

lemma sort_key_constant:
  assumes "\<forall>x \<in> set xs. f x = c"
  shows "sort_key f xs = xs"
  using assms
proof (induction xs)
  case Nil
  show ?case by simp
next
  case (Cons x xs)
  then have "sort_key f xs = xs" by simp
  moreover have "insort_key f x xs = x # xs"
    using Cons.prems by (cases xs) simp_all
  ultimately show ?case by simp
qed

lemma rank_loop_prefix: "\<exists>rest. rank_loop xs final_slips used = final_slips @ rest"
proof (induction xs arbitrary: final_slips used)
  case Nil
  show ?case by simp
next
  case (Cons s xs)
  from Cons.IH [of "final_slips @ [s]" "used \<union> Leg_Ids s"] obtain r1 where
    r1: "rank_loop xs (final_slips @ [s]) (used \<union> Leg_Ids s) = (final_slips @ [s]) @ r1"
    by blast
  from Cons.IH [of final_slips used] obtain r2 where
    r2: "rank_loop xs final_slips used = final_slips @ r2" by blast
  show ?case by (simp add: r1 r2)
qed

lemma rank_slips_head:
  assumes "\<forall>x \<in> set (s # raw). Avg_Win_Pct x = a"
  shows "\<exists>rest. rank_slips (s # raw) = s # rest"
proof -
  from assms have "sort_slips (s # raw) = s # raw"
    unfolding sort_slips_def by (intro sort_key_constant [where c = "- a"]) simp
  moreover from rank_loop_prefix [of raw "[s]" "Leg_Ids s"] obtain rest where
    "rank_loop raw [s] (Leg_Ids s) = s # rest" by auto
  ultimately show ?thesis by (simp add: rank_slips_def)
qed

lemma monte_carlo_full_pool_avg:
  assumes "monte_carlo rng pool target_size threshold = Inr raw" and "x \<in> set raw"
    and "int (length pool) = target_size"
  shows "Avg_Win_Pct x = round2 (sum_list (map Fair_Win_Pct pool) / of_int target_size)"
proof -
  from assms(1) have
    "monte_carlo_loop rng pool target_size threshold 0 [] = Inr raw"
    by (simp add: monte_carlo_def)
  from monte_carlo_loop_member [OF this assms(2)] obtain g combo where
    g: "random_sample g pool target_size = Inr combo"
       "check_combo combo target_size threshold = Inr (Some x)"
    by auto
  from g(1) assms(3) have "combo = draw g 0 pool (length pool)"
    by (auto simp: random_sample_def split: if_splits)
  then have "mset combo = mset pool" by (simp add: draw_mset)
  then have "sum_list (map Fair_Win_Pct combo) = sum_list (map Fair_Win_Pct pool)"
    by (rule sum_list_mset_cong)
  with check_combo_Some [OF g(2)] show ?thesis by (simp add: combo_slip_def)
qed

lemma get_slips_monte_carlo_head:
  assumes "5 \<le> target_size"
    and "int (length (row_loop pf all_props [])) = target_size"
    and "random_sample (rng 0) (sort_pool (row_loop pf all_props [])) target_size = Inr combo"
    and "check_combo combo target_size (threshold_of style target_size) = Inr (Some s)"
  shows "\<exists>rest. get_slips pf rng all_props target_size style = Inr (s # rest)"
proof -
  let ?pool = "sort_pool (row_loop pf all_props [])"
  let ?thr = "threshold_of style target_size"
  from monte_carlo_first [of rng, OF assms(3,4)] obtain raw where
    raw: "monte_carlo rng ?pool target_size ?thr = Inr (s # raw)" by blast
  have len: "int (length ?pool) = target_size"
    using assms(2) by (simp add: sort_pool_length)
  have "\<forall>x \<in> set (s # raw). Avg_Win_Pct x
          = round2 (sum_list (map Fair_Win_Pct ?pool) / of_int target_size)"
    using monte_carlo_full_pool_avg [OF raw _ len] by blast
  from rank_slips_head [OF this] obtain rest where
    rest: "rank_slips (s # raw) = s # rest" by blast
  from assms(1,2) have ne: "row_loop pf all_props [] \<noteq> []" by auto
  from assms(1) have sz: "target_size \<noteq> 1" "\<not> (target_size = 2 \<and> style = ''power'')"
    by simp_all
  have "slip_search rng (row_loop pf all_props []) target_size style = Inr (s # raw)"
    using assms(1) sz raw by (simp add: slip_search_def Let_def)
  with ne sz rest show ?thesis by (simp add: get_slips_def Let_def)
qed

text \<open>
  At size 5 the result does depend on the generator: on a table of five candidates, a
  generator whose first draw takes the second candidate gives a first slip with its legs
  in another order.
\<close>

lemma monte_carlo_depends_on_generator:
  "get_slips ex_float ex_rng
     [ex_row ''A'' ''BUF - QB'' ''Points'' 60 40, ex_row ''B'' ''JAX - LB'' ''Points'' 59 40,
      ex_row ''C'' ''NYJ - WR'' ''Points'' 58 40, ex_row ''D'' ''MIA - RB'' ''Points'' 57 40,
      ex_row ''E'' ''DAL - TE'' ''Points'' 56 40] 5 ''power''
   \<noteq> get_slips ex_float (\<lambda>t j. if t = 0 \<and> j = 0 then 1 else 0)
     [ex_row ''A'' ''BUF - QB'' ''Points'' 60 40, ex_row ''B'' ''JAX - LB'' ''Points'' 59 40,
      ex_row ''C'' ''NYJ - WR'' ''Points'' 58 40, ex_row ''D'' ''MIA - RB'' ''Points'' 57 40,
      ex_row ''E'' ''DAL - TE'' ''Points'' 56 40] 5 ''power''"
proof -
  let ?rows = "[ex_row ''A'' ''BUF - QB'' ''Points'' 60 40, ex_row ''B'' ''JAX - LB'' ''Points'' 59 40,
      ex_row ''C'' ''NYJ - WR'' ''Points'' 58 40, ex_row ''D'' ''MIA - RB'' ''Points'' 57 40,
      ex_row ''E'' ''DAL - TE'' ''Points'' 56 40]"
  let ?pool = "sort_pool (row_loop ex_float ?rows [])"
  let ?g = "\<lambda>(t::nat) (j::nat). if t = 0 \<and> j = 0 then 1 else (0::nat)"
  let ?c1 = "projr (random_sample (ex_rng 0) ?pool 5)"
  let ?c2 = "projr (random_sample (?g 0) ?pool 5)"
  let ?s1 = "the (projr (check_combo ?c1 5 (threshold_of ''power'' 5)))"
  let ?s2 = "the (projr (check_combo ?c2 5 (threshold_of ''power'' 5)))"
  have k: "(5::int) \<le> 5" by simp
  have l: "int (length (row_loop ex_float ?rows [])) = 5" by code_simp
  have r1: "random_sample (ex_rng 0) ?pool 5 = Inr ?c1" by code_simp
  have r2: "random_sample (?g 0) ?pool 5 = Inr ?c2" by code_simp
  have a1: "check_combo ?c1 5 (threshold_of ''power'' 5) = Inr (Some ?s1)" by code_simp
  have a2: "check_combo ?c2 5 (threshold_of ''power'' 5) = Inr (Some ?s2)" by code_simp
  have p1: "map Player (Legs ?s1) = [''A'', ''B'', ''C'', ''D'', ''E'']" by code_simp
  have p2: "map Player (Legs ?s2) = [''B'', ''A'', ''C'', ''D'', ''E'']" by code_simp
  from get_slips_monte_carlo_head [of 5 ex_float ?rows ex_rng, OF k l r1 a1] obtain rest1 where
    g1: "get_slips ex_float ex_rng ?rows 5 ''power'' = Inr (?s1 # rest1)" by blast
  from get_slips_monte_carlo_head [of 5 ex_float ?rows ?g, OF k l r2 a2] obtain rest2 where
    g2: "get_slips ex_float ?g ?rows 5 ''power'' = Inr (?s2 # rest2)" by blast
  from p1 p2 have "?s1 \<noteq> ?s2" by auto
  with g1 g2 show ?thesis by simp
qed

end
